theory Spec2Isabelle
  imports Main "HOL-Library.Char_ord" "HOL-Library.List_Lexorder" "HOL-Library.Product_Lexorder"
begin

section \<open>Python values used by \<open>stormspotter/collect/utils.py\<close>\<close>

text \<open>
  Exceptions that the modelled code can raise. \<open>OperationalError\<close> is
  \<open>sqlite3.OperationalError\<close>; it carries the reason the database driver gave, because
  the class covers a busy database as well as other operational failures (for instance a
  statement on a table that does not exist yet).
\<close>

datatype op_reason = DatabaseLocked | NoSuchTable | OtherOperational

datatype error =
    ValueError
  | KeyError
  | TypeError
  | DatabaseError
  | OperationalError op_reason

text \<open>
  A \<open>dict\<close> is an association list in insertion order; a well-formed dict has distinct
  keys. The argument of \<open>chunk\<close> is a list or a dict (\<open>Union[List, Dict]\<close>).
\<close>

type_synonym ('k, 'v) pydict = "('k \<times> 'v) list"

datatype ('a, 'k, 'v) data = PyList "'a list" | PyDict "('k, 'v) pydict"

fun len :: "('a, 'k, 'v) data \<Rightarrow> int" where
  "len (PyList xs) = int (length xs)"
| "len (PyDict d) = int (length d)"

text \<open>\<open>range(start, stop, step)\<close>: a zero step raises; the length is the one CPython computes.\<close>

definition range_len :: "int \<Rightarrow> int \<Rightarrow> int \<Rightarrow> nat" where
  "range_len start stop step =
     (if 0 < step \<and> start < stop then nat ((stop - start - 1) div step + 1)
      else if step < 0 \<and> stop < start then nat ((start - stop - 1) div (- step) + 1)
      else 0)"

definition py_range :: "int \<Rightarrow> int \<Rightarrow> int \<Rightarrow> error + int list" where
  "py_range start stop step =
     (if step = 0 then Inl ValueError
      else Inr (map (\<lambda>i. start + int i * step) [0 ..< range_len start stop step]))"

text \<open>\<open>xs[i:j]\<close> with Python's treatment of negative and out-of-range bounds.\<close>

definition adjust_index :: "int \<Rightarrow> int \<Rightarrow> int" where
  "adjust_index n i = (if i < 0 then (if i + n < 0 then 0 else i + n) else (if n \<le> i then n else i))"

definition py_slice :: "'a list \<Rightarrow> int \<Rightarrow> int \<Rightarrow> 'a list" where
  "py_slice xs i j =
     (let n = int (length xs); lo = adjust_index n i; hi = adjust_index n j
      in if hi \<le> lo then [] else take (nat (hi - lo)) (drop (nat lo) xs))"

text \<open>\<open>islice(d, n)\<close> over the keys of a dict: a negative stop raises.\<close>

definition islice :: "'k list \<Rightarrow> int \<Rightarrow> error + 'k list" where
  "islice ks n = (if n < 0 then Inl ValueError else Inr (take (nat n) ks))"

definition dict_getitem :: "('k, 'v) pydict \<Rightarrow> 'k \<Rightarrow> error + 'v" where
  "dict_getitem d k = (case map_of d k of None \<Rightarrow> Inl KeyError | Some v \<Rightarrow> Inr v)"

definition dict_setitem :: "('k, 'v) pydict \<Rightarrow> 'k \<Rightarrow> 'v \<Rightarrow> ('k, 'v) pydict" where
  "dict_setitem d k v =
     (if k \<in> fst ` set d then map (\<lambda>(k', v'). if k' = k then (k', v) else (k', v')) d
      else d @ [(k, v)])"

text \<open>The comprehension \<open>{key: data[key] for key in keys}\<close>, built entry by entry.\<close>

fun dict_comp :: "('k, 'v) pydict \<Rightarrow> 'k list \<Rightarrow> ('k, 'v) pydict \<Rightarrow> error + ('k, 'v) pydict" where
  "dict_comp d [] acc = Inr acc"
| "dict_comp d (k # ks) acc =
     (case dict_getitem d k of
        Inl e \<Rightarrow> Inl e
      | Inr v \<Rightarrow> dict_comp d ks (dict_setitem acc k v))"

section \<open>\<open>chunk\<close>\<close>

text \<open>
  One pass through the body of the \<open>for\<close> loop of \<open>chunk\<close>: the value it yields for the
  index \<open>idx\<close>, or the exception it raises (\<open>sz\<close> is the parameter \<open>size\<close>).
\<close>

fun chunk_body :: "('a, 'k, 'v) data \<Rightarrow> int \<Rightarrow> int \<Rightarrow> error + ('a, 'k, 'v) data" where
  "chunk_body (PyList xs) sz idx = Inr (PyList (py_slice xs idx (idx + sz)))"
| "chunk_body (PyDict d) sz idx =
     (case islice (map fst d) sz of
        Inl e \<Rightarrow> Inl e
      | Inr ks \<Rightarrow> (case dict_comp d ks [] of Inl e \<Rightarrow> Inl e | Inr c \<Rightarrow> Inr (PyDict c)))"

text \<open>
  A generator run to its end: the values it yielded, in order, and the exception that
  ended it, if one did.
\<close>

fun run_gen :: "('i \<Rightarrow> error + 'y) \<Rightarrow> 'i list \<Rightarrow> 'y list \<times> error option" where
  "run_gen body [] = ([], None)"
| "run_gen body (i # is) =
     (case body i of
        Inl e \<Rightarrow> ([], Some e)
      | Inr y \<Rightarrow> (case run_gen body is of (ys, r) \<Rightarrow> (y # ys, r)))"

definition chunk :: "('a, 'k, 'v) data \<Rightarrow> int \<Rightarrow> ('a, 'k, 'v) data list \<times> error option" where
  "chunk data sz =
     (case py_range 0 (len data) sz of
        Inl e \<Rightarrow> ([], Some e)
      | Inr idxs \<Rightarrow> run_gen (chunk_body data sz) idxs)"

section \<open>\<open>sqlite_writer\<close>\<close>

text \<open>
  The database driver (\<open>aiosqlite\<close> over SQLite) is a library, the environment of
  \<open>sqlite_writer\<close>. The model keeps what the function can observe of it. Its state is
  the store: whether the file exists, whether the table \<open>results\<close> exists, the
  committed rows, and the rows inserted on the open connection but not committed yet.
  Each driver call may fail for a reason outside the caller's control (another writer
  holds the lock, the disk is full, ...): an oracle \<open>env\<close>, read at the call's position
  \<open>clock\<close>, says whether the call proceeds or which exception it raises. The field
  \<open>trace\<close> logs the calls in the order they are made, and \<open>res\<close> is the record object
  the caller passed.
\<close>

datatype outcome = Proceed | Fail error

datatype 'b event = EvConnect | EvCreateTable | EvSerialize | EvInsert 'b | EvCommit | EvClose

record ('r, 'b) world =
  file_exists :: bool
  has_table :: bool
  rows :: "'b list"
  pending :: "'b list"
  clock :: nat
  trace :: "'b event list"
  res :: 'r

definition driver_call ::
  "(nat \<Rightarrow> outcome) \<Rightarrow> 'b event \<Rightarrow> ('r, 'b) world \<Rightarrow> outcome \<times> ('r, 'b) world" where
  "driver_call env ev w = (env (clock w), w\<lparr>clock := Suc (clock w), trace := trace w @ [ev]\<rparr>)"

text \<open>\<open>aiosqlite.connect(output)\<close>: opening a path that does not exist creates the file.\<close>

definition connect :: "(nat \<Rightarrow> outcome) \<Rightarrow> ('r, 'b) world \<Rightarrow> (error + unit) \<times> ('r, 'b) world" where
  "connect env w =
     (case driver_call env EvConnect w of
        (Fail e, w') \<Rightarrow> (Inl e, w')
      | (Proceed, w') \<Rightarrow> (Inr (), w'\<lparr>file_exists := True, pending := []\<rparr>))"

text \<open>
  \<open>db.execute("CREATE TABLE IF NOT EXISTS results ...")\<close>: the effect of the statement on
  the store, and the driver call that runs it.
\<close>

definition create_table_if_not_exists :: "('r, 'b) world \<Rightarrow> ('r, 'b) world" where
  "create_table_if_not_exists w = (if has_table w then w else w\<lparr>has_table := True\<rparr>)"

definition execute_create_table ::
  "(nat \<Rightarrow> outcome) \<Rightarrow> ('r, 'b) world \<Rightarrow> (error + unit) \<times> ('r, 'b) world" where
  "execute_create_table env w =
     (case driver_call env EvCreateTable w of
        (Fail e, w') \<Rightarrow> (Inl e, w')
      | (Proceed, w') \<Rightarrow> (Inr (), create_table_if_not_exists w'))"

text \<open>
  \<open>db.execute_insert("INSERT INTO results (result) VALUES (?)", (b,))\<close>: without the
  table SQLite raises \<open>OperationalError\<close> (no such table); the inserted row stays in the
  connection's open transaction until a commit.
\<close>

definition execute_insert ::
  "(nat \<Rightarrow> outcome) \<Rightarrow> 'b \<Rightarrow> ('r, 'b) world \<Rightarrow> (error + unit) \<times> ('r, 'b) world" where
  "execute_insert env b w =
     (case driver_call env (EvInsert b) w of
        (Fail e, w') \<Rightarrow> (Inl e, w')
      | (Proceed, w') \<Rightarrow>
          (if has_table w' then (Inr (), w'\<lparr>pending := pending w' @ [b]\<rparr>)
           else (Inl (OperationalError NoSuchTable), w')))"

text \<open>\<open>db.commit()\<close>: a failed commit leaves the transaction open.\<close>

definition commit :: "(nat \<Rightarrow> outcome) \<Rightarrow> ('r, 'b) world \<Rightarrow> (error + unit) \<times> ('r, 'b) world" where
  "commit env w =
     (case driver_call env EvCommit w of
        (Fail e, w') \<Rightarrow> (Inl e, w')
      | (Proceed, w') \<Rightarrow> (Inr (), w'\<lparr>rows := rows w' @ pending w', pending := []\<rparr>))"

text \<open>Leaving \<open>async with aiosqlite.connect(output) as db\<close>: uncommitted rows are rolled back.\<close>

definition close :: "('r, 'b) world \<Rightarrow> ('r, 'b) world" where
  "close w = w\<lparr>pending := [], trace := trace w @ [EvClose]\<rparr>"

text \<open>\<open>with suppress(OperationalError)\<close>: that class of exception ends the block silently.\<close>

fun is_operational :: "error \<Rightarrow> bool" where
  "is_operational (OperationalError r) = True"
| "is_operational e = False"

definition suppress :: "(error + unit) \<times> 'w \<Rightarrow> (error + unit) \<times> 'w" where
  "suppress rw =
     (case rw of
        (Inl e, w) \<Rightarrow> if is_operational e then (Inr (), w) else (Inl e, w)
      | (Inr u, w) \<Rightarrow> (Inr u, w))"

text \<open>
  Lines 25 to 34 of \<open>sqlite_writer\<close>, the step the specification calls
  \<open>ensure_schema\<close>: only for a path that does not exist, connect, create the table,
  commit, close; all under \<open>suppress(OperationalError)\<close>.
\<close>

definition ensure_schema :: "(nat \<Rightarrow> outcome) \<Rightarrow> ('r, 'b) world \<Rightarrow> (error + unit) \<times> ('r, 'b) world" where
  "ensure_schema env w =
     (if \<not> file_exists w then
        suppress
          (case connect env w of
             (Inl e, w1) \<Rightarrow> (Inl e, w1)
           | (Inr u, w1) \<Rightarrow>
               (case execute_create_table env w1 of
                  (Inl e, w2) \<Rightarrow> (Inl e, close w2)
                | (Inr u, w2) \<Rightarrow> (case commit env w2 of (r, w3) \<Rightarrow> (r, close w3))))
      else (Inr (), w))"

text \<open>
  The block under \<open>suppress(OperationalError)\<close> inside the loop, lines 39 to 44, up to
  the \<open>break\<close>: serialize the record, insert, commit. \<open>dumps\<close> is the codec
  (\<open>msgpack.dumps\<close>); \<open>None\<close> stands for a record it cannot encode, for which it raises
  \<open>TypeError\<close>. The result \<open>Inr ()\<close> is the \<open>break\<close>.
\<close>

definition attempt ::
  "('r \<Rightarrow> 'b option) \<Rightarrow> (nat \<Rightarrow> outcome) \<Rightarrow> ('r, 'b) world \<Rightarrow> (error + unit) \<times> ('r, 'b) world" where
  "attempt dumps env w =
     (let w0 = w\<lparr>trace := trace w @ [EvSerialize]\<rparr> in
      case dumps (res w0) of
        None \<Rightarrow> (Inl TypeError, w0)
      | Some b \<Rightarrow>
          (case execute_insert env b w0 of
             (Inl e, w1) \<Rightarrow> (Inl e, w1)
           | (Inr u, w1) \<Rightarrow> commit env w1))"

text \<open>
  The \<open>while True\<close> loop of lines 37 to 44: a suppressed exception starts the next
  iteration, any other exception leaves the loop, and so does the \<open>break\<close>. The loop
  need not end: no result is \<open>None\<close>.
\<close>

partial_function (option) writer_loop ::
  "('r \<Rightarrow> 'b option) \<Rightarrow> (nat \<Rightarrow> outcome) \<Rightarrow> ('r, 'b) world \<Rightarrow> ((error + unit) \<times> ('r, 'b) world) option" where
  "writer_loop dumps env w =
     (case attempt dumps env w of
        (Inl e, w') \<Rightarrow> if is_operational e then writer_loop dumps env w' else Some (Inl e, w')
      | (Inr u, w') \<Rightarrow> Some (Inr (), w'))"

declare writer_loop.simps [code]

definition sqlite_writer ::
  "('r \<Rightarrow> 'b option) \<Rightarrow> (nat \<Rightarrow> outcome) \<Rightarrow> ('r, 'b) world \<Rightarrow> ((error + unit) \<times> ('r, 'b) world) option" where
  "sqlite_writer dumps env w =
     (case ensure_schema env w of
        (Inl e, w1) \<Rightarrow> Some (Inl e, w1)
      | (Inr u, w1) \<Rightarrow>
          (case connect env w1 of
             (Inl e, w2) \<Rightarrow> Some (Inl e, w2)
           | (Inr u, w2) \<Rightarrow>
               (case writer_loop dumps env w2 of
                  None \<Rightarrow> None
                | Some (r, w3) \<Rightarrow> Some (r, close w3))))"

text \<open>
  The driver calls of the retry loop come in units: a serialization and an insert, then
  a commit unless the insert failed. \<open>retry_units b t\<close> says that \<open>t\<close> is a sequence
  of such units for the payload \<open>b\<close>.
\<close>

fun retry_units :: "'b \<Rightarrow> 'b event list \<Rightarrow> bool" where
  "retry_units b [] = True"
| "retry_units b (e # t) =
     (e = EvSerialize \<and>
      (case t of
         [] \<Rightarrow> False
       | i # t' \<Rightarrow>
           i = EvInsert b \<and>
           (case t' of
              [] \<Rightarrow> True
            | c # t'' \<Rightarrow> if c = EvCommit then retry_units b t'' else retry_units b t')))"



definition script :: "outcome list \<Rightarrow> nat \<Rightarrow> outcome" where
  "script os n = (if n < length os then os ! n else Proceed)"

text \<open>
  Modelled from the spec: the binary codec (\<open>msgpack\<close>) is a library outside the
  repository, and the source has no decoder. The specification requires of the payload
  encoding that it "must round-trip the original structure exactly": decoding what
  \<open>dumps\<close> returned for a record gives that record back.
\<close>

definition round_trips :: "('r \<Rightarrow> 'b option) \<Rightarrow> ('b \<Rightarrow> 'r option) \<Rightarrow> bool" where
  "round_trips dumps loads = (\<forall>r b. dumps r = Some b \<longrightarrow> loads b = Some r)"

text \<open>
  A codec for concrete runs: a list of positive numbers is encoded with its length in
  front; a list that contains 0 cannot be encoded.
\<close>

definition demo_dumps :: "nat list \<Rightarrow> nat list option" where
  "demo_dumps xs = (if 0 \<in> set xs then None else Some (length xs # xs))"

fun demo_loads :: "nat list \<Rightarrow> nat list option" where
  "demo_loads [] = None"
| "demo_loads (n # xs) = (if n = length xs \<and> 0 \<notin> set xs then Some xs else None)"

definition new_world :: "bool \<Rightarrow> bool \<Rightarrow> 'b list \<Rightarrow> 'r \<Rightarrow> ('r, 'b) world" where
  "new_world f t rs r =
     \<lparr>file_exists = f, has_table = t, rows = rs, pending = [], clock = 0, trace = [], res = r\<rparr>"

section \<open>\<open>gen_results_tables\<close>\<close>

text \<open>
  A \<open>Counter\<close> maps a category to a count; the category is a name, or \<open>None\<close> when
  the enumeration failed. The tables of \<open>rich\<close> are kept as the data put into them: the
  rows of a \<open>Table\<close>, the content and the title of a panel.
\<close>

type_synonym counter = "(string option, int) pydict"

datatype table = Table "(string \<times> string) list"

datatype panel = PanelFit table string | Panel "table list" string

text \<open>\<open>str(v)\<close> for an integer.\<close>

definition digit_char :: "nat \<Rightarrow> char" where
  "digit_char d = char_of (48 + d)"

fun digits :: "nat \<Rightarrow> string" where
  "digits n = (if n < 10 then [digit_char n] else digits (n div 10) @ [digit_char (n mod 10)])"

definition str_int :: "int \<Rightarrow> string" where
  "str_int v = (if v < 0 then CHR ''-'' # digits (nat (- v)) else digits (nat v))"

text \<open>\<open>c.pop(None, None)\<close>: the entry with the key \<open>None\<close> is removed, if there is one.\<close>

definition pop_None :: "counter \<Rightarrow> counter" where
  "pop_None c = filter (\<lambda>(k, v). k \<noteq> None) c"

text \<open>\<open>sorted(c.items())\<close> for a counter whose keys are names: pairs in tuple order.\<close>

definition named_items :: "counter \<Rightarrow> (string \<times> int) list" where
  "named_items c = List.map_filter (\<lambda>(k, v). map_option (\<lambda>s. (s, v)) k) c"

definition sorted_items :: "counter \<Rightarrow> (string \<times> int) list" where
  "sorted_items c = sort (named_items c)"

definition add_rows :: "(string \<times> int) list \<Rightarrow> table" where
  "add_rows kvs = Table (map (\<lambda>(k, v). (k, str_int v)) kvs)"

definition total :: "counter \<Rightarrow> int" where
  "total c = sum_list (map snd c)"

text \<open>
  The body of the loop over the chunks of the ARM items: one table per chunk. A chunk of
  a list is a list; a dict could not be unpacked into rows.
\<close>

fun arm_table :: "(string \<times> int, unit, unit) data \<Rightarrow> error + table" where
  "arm_table (PyList kvs) = Inr (add_rows kvs)"
| "arm_table (PyDict d) = Inl TypeError"

fun arm_tables :: "(string \<times> int, unit, unit) data list \<Rightarrow> error + table list" where
  "arm_tables [] = Inr []"
| "arm_tables (c # cs) =
     (case arm_table c of
        Inl e \<Rightarrow> Inl e
      | Inr t \<Rightarrow> (case arm_tables cs of Inl e \<Rightarrow> Inl e | Inr ts \<Rightarrow> Inr (t # ts)))"

text \<open>
  \<open>gen_results_tables\<close> returns the rendered panels, or the exception raised, together
  with the two counters as the caller finds them afterwards.
\<close>

definition aad_part :: "counter \<Rightarrow> panel list \<times> counter" where
  "aad_part aad_results =
     (if aad_results \<noteq> [] then
        (let aad = pop_None aad_results
         in ([PanelFit (add_rows (sorted_items aad))
                (''[bold yellow]AAD Results (Total: '' @ str_int (total aad) @ '')[/]'')], aad))
      else ([], aad_results))"

definition arm_part :: "counter \<Rightarrow> (error + panel list) \<times> counter" where
  "arm_part arm_results =
     (if arm_results \<noteq> [] then
        (let arm = pop_None arm_results
         in case chunk (PyList (sorted_items arm)) (int (length arm) div 3 + 1) of
              (chunks, raised) \<Rightarrow>
                (case arm_tables chunks of
                   Inl e \<Rightarrow> (Inl e, arm)
                 | Inr arm_results_group \<Rightarrow>
                     (case raised of
                        Some e \<Rightarrow> (Inl e, arm)
                      | None \<Rightarrow>
                          (Inr [Panel arm_results_group
                             (''[bold yellow]ARM Results (Total: '' @ str_int (total arm) @ '')[/]'')],
                           arm))))
      else (Inr [], arm_results))"

definition gen_results_tables :: "counter \<Rightarrow> counter \<Rightarrow> (error + panel list) \<times> counter \<times> counter" where
  "gen_results_tables aad_results arm_results =
     (case aad_part aad_results of
        (tables, aad') \<Rightarrow>
          (case arm_part arm_results of
             (Inl e, arm') \<Rightarrow> (Inl e, aad', arm')
           | (Inr arm_panel, arm') \<Rightarrow> (Inr (tables @ arm_panel), aad', arm')))"

section \<open>Properties of \<open>chunk\<close>\<close>

subsection \<open>Lists\<close>

lemma py_slice_window:
  assumes "0 \<le> i" and "0 < s"
  shows "py_slice xs i (i + s) = take (nat s) (drop (nat i) xs)"
proof (cases "int (length xs) \<le> i")
  case True
  then show ?thesis using assms by (simp add: py_slice_def adjust_index_def Let_def)
next
  case False
  then have lo: "adjust_index (int (length xs)) i = i"
    using assms by (simp add: adjust_index_def)
  show ?thesis
  proof (cases "int (length xs) \<le> i + s")
    case True
    then have "adjust_index (int (length xs)) (i + s) = int (length xs)"
      using assms by (simp add: adjust_index_def)
    then show ?thesis using lo False True assms
      by (simp add: py_slice_def Let_def nat_diff_distrib)
  next
    case False
    then have "adjust_index (int (length xs)) (i + s) = i + s"
      using assms by (simp add: adjust_index_def)
    then show ?thesis using lo assms by (simp add: py_slice_def Let_def)
  qed
qed

lemma run_gen_total:
  "(\<And>i. i \<in> set is \<Longrightarrow> body i = Inr (f i)) \<Longrightarrow> run_gen body is = (map f is, None)"
  by (induction "is") auto

lemma range_len_up:
  assumes "0 < sz"
  shows "range_len 0 (int L) sz = (L + nat sz - 1) div nat sz"
proof (cases "L = 0")
  case True
  then show ?thesis using assms by (simp add: range_len_def)
next
  case False
  define n where "n = nat sz"
  have n: "sz = int n" "0 < n" using assms by (simp_all add: n_def)
  have a: "int L - 1 = int (L - 1)" using False by simp
  have b: "(int L - 1) div int n + 1 = int ((L - 1) div n + 1)"
    unfolding a by (simp add: zdiv_int)
  have c: "(L - 1) div n + 1 = (L + n - 1) div n"
  proof -
    have "L + n - 1 = (L - 1) + n" using False by simp
    then show ?thesis using n(2) by (simp only: div_add_self2) 
  qed
  have d: "nat ((int L - 1) div int n + 1) = (L + n - 1) div n"
    unfolding b c [symmetric] by (rule nat_int)
  have e: "range_len 0 (int L) (int n) = nat ((int L - 0 - 1) div int n + 1)"
    using False n(2) by (simp add: range_len_def)
  show ?thesis unfolding n(1) e using d by simp
qed

lemma chunk_list_eq:
  assumes "0 < sz"
  shows "chunk (PyList xs) sz =
    (map (\<lambda>i. PyList (take (nat sz) (drop (i * nat sz) xs)))
       [0 ..< (length xs + nat sz - 1) div nat sz], None)"
proof -
  have body: "chunk_body (PyList xs) sz (0 + int i * sz)
      = Inr (PyList (take (nat sz) (drop (i * nat sz) xs)))" for i
  proof -
    have "0 \<le> int i * sz" using assms by simp
    moreover have "nat (int i * sz) = i * nat sz" using assms by (simp add: nat_mult_distrib)
    ultimately show ?thesis using assms by (simp add: py_slice_window)
  qed
  have "run_gen (chunk_body (PyList xs) sz)
          (map (\<lambda>i. 0 + int i * sz) [0 ..< range_len 0 (int (length xs)) sz])
        = (map (\<lambda>j. PyList (take (nat sz) (drop (nat j div nat sz * nat sz) xs)))
            (map (\<lambda>i. 0 + int i * sz) [0 ..< range_len 0 (int (length xs)) sz]), None)"
    apply (rule run_gen_total)
    using assms body by (auto simp: nat_mult_distrib)
  then show ?thesis
    using assms by (simp add: chunk_def py_range_def range_len_up comp_def nat_mult_distrib)
qed

lemma concat_windows:
  "concat (map (\<lambda>i. take n (drop (i * n) xs)) [0 ..< k]) = take (k * n) xs"
proof (induction k)
  case 0
  then show ?case by simp
next
  case (Suc k)
  have "take (k * n) xs @ take n (drop (k * n) xs) = take (k * n + n) xs"
    by (simp add: take_add)
  then show ?case using Suc by (simp add: add.commute)
qed

lemma windows_cover:
  assumes "0 < n"
  shows "length xs \<le> (length xs + n - 1) div n * n"
proof -
  have "(length xs + n - 1) mod n < n" using assms by simp
  moreover have "(length xs + n - 1) div n * n + (length xs + n - 1) mod n = length xs + n - 1"
    by simp
  ultimately show ?thesis by linarith
qed

lemma window_nonempty:
  assumes "0 < n" and "i < (length xs + n - 1) div n"
  shows "i * n < length xs"
proof -
  have "Suc i \<le> (length xs + n - 1) div n" using assms by simp
  then have "Suc i * n \<le> (length xs + n - 1) div n * n" by (rule mult_le_mono1)
  also have "\<dots> \<le> length xs + n - 1" by simp
  finally show ?thesis using assms by simp
qed

lemma window_full:
  assumes "0 < n" and "Suc i < (length xs + n - 1) div n"
  shows "i * n + n \<le> length xs"
  using window_nonempty [OF assms] by simp

text \<open>
  Claim C2. For a list of length \<open>L\<close> and a positive \<open>size\<close>, \<open>chunk\<close> ends without
  an exception after yielding \<open>ceil(L / size)\<close> chunks, that is
  \<open>(L + size - 1) div size\<close>; chunk number \<open>i\<close> is the contiguous slice of \<open>size\<close>
  elements starting at \<open>i * size\<close>, so it is not empty and not longer than \<open>size\<close>,
  and every chunk but the last has exactly \<open>size\<close> elements; the chunks concatenated
  are the list; the empty list gives no chunk.
\<close>

theorem chunk_list_partition:
  assumes "0 < sz"
  shows "\<exists>cs. chunk (PyList xs) sz = (map PyList cs, None)
           \<and> length cs = (length xs + nat sz - 1) div nat sz
           \<and> (\<forall>i < length cs. cs ! i = take (nat sz) (drop (i * nat sz) xs))
           \<and> (\<forall>i < length cs. 0 < length (cs ! i) \<and> length (cs ! i) \<le> nat sz)
           \<and> (\<forall>i. Suc i < length cs \<longrightarrow> length (cs ! i) = nat sz)
           \<and> concat cs = xs
           \<and> (xs = [] \<longrightarrow> cs = [])"
proof -
  define n where "n = nat sz"
  define k where "k = (length xs + n - 1) div n"
  define cs where "cs = map (\<lambda>i. take n (drop (i * n) xs)) [0 ..< k]"
  have n: "0 < n" using assms by (simp add: n_def)
  have c1: "chunk (PyList xs) sz = (map PyList cs, None)"
    using chunk_list_eq [OF assms, of xs] by (simp add: cs_def k_def n_def comp_def)
  have c2: "length cs = k" by (simp add: cs_def)
  have c3: "cs ! i = take n (drop (i * n) xs)" if "i < length cs" for i
    using that by (simp add: cs_def)
  have c4: "0 < length (cs ! i) \<and> length (cs ! i) \<le> n" if "i < length cs" for i
  proof -
    have "i * n < length xs" using window_nonempty [OF n, of i xs] that c2 k_def by simp
    then show ?thesis using c3 [OF that] n by simp
  qed
  have c5: "length (cs ! i) = n" if "Suc i < length cs" for i
  proof -
    have "i * n + n \<le> length xs" using window_full [OF n, of i xs] that c2 k_def by simp
    moreover have "i < length cs" using that by simp
    ultimately show ?thesis using c3 [of i] by simp
  qed
  have c6: "concat cs = xs"
    using windows_cover [OF n, of xs] by (simp add: cs_def concat_windows k_def)
  have c7: "xs = [] \<longrightarrow> cs = []"
    using n by (auto simp: cs_def k_def)
  show ?thesis
    using c1 c2 c3 c4 c5 c6 c7 unfolding n_def k_def by blast
qed

theorem chunk_list_partition_witness:
  "(0::int) < 2 \<and> (\<exists>cs. chunk (PyList [1, 2, 3, 4, 5 :: int] :: (int, unit, unit) data) 2 = (map PyList cs, None)
           \<and> length cs = 3 \<and> concat cs = [1, 2, 3, 4, 5])"
proof -
  have h: "(0::int) < 2" by simp
  obtain cs where cs: "chunk (PyList [1, 2, 3, 4, 5 :: int] :: (int, unit, unit) data) 2 = (map PyList cs, None)"
      "length cs = (length [1, 2, 3, 4, 5 :: int] + nat 2 - 1) div nat 2"
      "concat cs = [1, 2, 3, 4, 5]"
    using chunk_list_partition [OF h, of "[1, 2, 3, 4, 5 :: int]"] by blast
  have "length cs = 3" using cs(2) by simp
  then show ?thesis using h cs(1,3) by blast
qed

lemma twice_minus_one_div:
  assumes "0 < (n::nat)"
  shows "(n + n - 1) div n = 1"
proof -
  have "n + n - 1 = (n - 1) + n" using assms by simp
  then have "(n + n - 1) div n = (n - 1) div n + 1" using assms by (simp only: div_add_self2)
  then show ?thesis using assms by simp
qed

lemma chunk_list_singletons:
  "chunk (PyList xs :: ('a, 'k, 'v) data) 1 = (map (\<lambda>x. PyList [x]) xs, None)"
proof -
  have "map (\<lambda>i. PyList (take (Suc 0) (drop i xs)) :: ('a, 'k, 'v) data) [0 ..< length xs]
      = map (\<lambda>x. PyList [x]) xs"
  proof (rule nth_equalityI)
    fix i assume "i < length (map (\<lambda>i. PyList (take (Suc 0) (drop i xs)) :: ('a, 'k, 'v) data) [0 ..< length xs])"
    then have i: "i < length xs" by simp
    then have "drop i xs = xs ! i # drop (Suc i) xs" by (simp add: Cons_nth_drop_Suc)
    then show "map (\<lambda>i. PyList (take (Suc 0) (drop i xs)) :: ('a, 'k, 'v) data) [0 ..< length xs] ! i
        = map (\<lambda>x. PyList [x]) xs ! i" using i by simp
  qed simp
  then show ?thesis using chunk_list_eq [of 1 xs, where ?'b = 'k and ?'c = 'v] by simp
qed

lemma chunk_list_whole:
  assumes "xs \<noteq> []"
  shows "chunk (PyList xs) (int (length xs)) = ([PyList xs], None)"
proof -
  have "0 < int (length xs)" using assms by simp
  moreover have "(length xs + length xs - 1) div length xs = 1"
    by (rule twice_minus_one_div) (use assms in simp)
  ultimately show ?thesis using chunk_list_eq [of "int (length xs)" xs] by simp
qed

subsection \<open>Dicts\<close>

lemma dict_comp_append:
  assumes "distinct (map fst d)" and "set p \<subseteq> set d"
    and "distinct (map fst p)" and "fst ` set acc \<inter> fst ` set p = {}"
  shows "dict_comp d (map fst p) acc = Inr (acc @ p)"
  using assms(2-4)
proof (induction p arbitrary: acc)
  case Nil
  then show ?case by simp
next
  case (Cons kv p)
  obtain k v where kv: "kv = (k, v)" by (cases kv)
  have "map_of d k = Some v" using Cons.prems(1) assms(1) kv by simp
  then have get: "dict_getitem d k = Inr v" by (simp add: dict_getitem_def)
  have fresh: "k \<notin> fst ` set acc" using Cons.prems(3) kv by auto
  then have set: "dict_setitem acc k v = acc @ [(k, v)]" by (simp add: dict_setitem_def)
  have "fst ` set (acc @ [(k, v)]) \<inter> fst ` set p = {}"
    using Cons.prems(2,3) kv by auto
  then have "dict_comp d (map fst p) (acc @ [(k, v)]) = Inr ((acc @ [(k, v)]) @ p)"
    using Cons.IH [of "acc @ [(k, v)]"] Cons.prems(1,2) by simp
  then show ?case using get set kv by simp
qed

lemma chunk_body_dict:
  assumes "distinct (map fst d)" and "0 \<le> sz"
  shows "chunk_body (PyDict d) sz idx = Inr (PyDict (take (nat sz) d))"
proof -
  have "dict_comp d (map fst (take (nat sz) d)) [] = Inr ([] @ take (nat sz) d)"
  proof (rule dict_comp_append [OF assms(1)])
    show "set (take (nat sz) d) \<subseteq> set d" by (rule set_take_subset)
    show "distinct (map fst (take (nat sz) d))"
      using assms(1) by (simp add: take_map [symmetric] distinct_take del: take_map)
  qed simp
  then show ?thesis using assms(2) by (simp add: islice_def take_map)
qed

lemma chunk_dict_eq:
  fixes d :: "('k, 'v) pydict"
  assumes "distinct (map fst d)" and "0 < sz"
  shows "chunk (PyDict d :: ('a, 'k, 'v) data) sz =
    (replicate ((length d + nat sz - 1) div nat sz) (PyDict (take (nat sz) d)), None)"
proof -
  have "run_gen (chunk_body (PyDict d :: ('a, 'k, 'v) data) sz) is
      = (map (\<lambda>i. PyDict (take (nat sz) d)) is, None)" for "is"
  proof (rule run_gen_total)
    have "0 \<le> sz" using assms(2) by simp
    then show "chunk_body (PyDict d :: ('a, 'k, 'v) data) sz i = Inr (PyDict (take (nat sz) d))" for i
      by (rule chunk_body_dict [OF assms(1)])
  qed
  then show ?thesis
    using assms(2) by (simp add: chunk_def py_range_def range_len_up map_replicate_const)
qed

lemma chunk_dict_whole:
  fixes d :: "('k, 'v) pydict"
  assumes "d \<noteq> []" and "distinct (map fst d)"
  shows "chunk (PyDict d :: ('a, 'k, 'v) data) (int (length d)) = ([PyDict d], None)"
proof -
  have "0 < int (length d)" using assms by simp
  moreover have "(length d + length d - 1) div length d = 1"
    by (rule twice_minus_one_div) (use assms in simp)
  ultimately show ?thesis
    using chunk_dict_eq [OF assms(2), of "int (length d)", where ?'a = 'a] by simp
qed

text \<open>
  Claim C1. The chunks of a dict should partition it. The dict branch of \<open>chunk\<close> does not
  use the loop index: every chunk is the first \<open>size\<close> entries again
  (\<open>chunk_dict_eq\<close>). For the dict \<open>{'a': 1, 'b': 2, 'c': 3}\<close> and \<open>size = 2\<close> the two
  chunks are both \<open>{'a': 1, 'b': 2}\<close>: the key \<open>'c'\<close> is in no chunk and the keys
  \<open>'a'\<close> and \<open>'b'\<close> are in two.
\<close>

theorem chunk_dict_repeats_first_keys:
  "chunk (PyDict [(''a'', 1), (''b'', 2), (''c'', 3 :: int)] :: (unit, string, int) data) 2
     = ([PyDict [(''a'', 1), (''b'', 2)], PyDict [(''a'', 1), (''b'', 2)]], None)"
  by code_simp

text \<open>
  Claim C3. With \<open>size = 1\<close> a list gives one singleton chunk per element
  (\<open>chunk_list_singletons\<close>), and with \<open>size = len(data)\<close> a non-empty list or dict
  gives the whole input as the only chunk (\<open>chunk_list_whole\<close>, \<open>chunk_dict_whole\<close>).
  A dict with \<open>size = 1\<close> does not give one chunk per entry: for \<open>{'a': 1, 'b': 2}\<close>
  both chunks are \<open>{'a': 1}\<close>.
\<close>

theorem chunk_dict_size_one_repeats_first_entry:
  "chunk (PyDict [(''a'', 1), (''b'', 2 :: int)] :: (unit, string, int) data) 1
     = ([PyDict [(''a'', 1)], PyDict [(''a'', 1)]], None)"
  by code_simp

subsection \<open>A size that is not positive\<close>

text \<open>
  Claim C4 says that every \<open>size \<le> 0\<close> is rejected with an error. The code has no check
  of \<open>size\<close>. A negative \<open>size\<close> makes the \<open>range\<close> empty: the generator ends normally
  without a chunk and without an exception.
\<close>

theorem chunk_negative_size_no_error:
  "chunk (PyList [1, 2, 3 :: int] :: (int, unit, unit) data) (- 1) = ([], None)"
  by code_simp

text \<open>
  Claim C4, amended. For \<open>size = 0\<close> the generator raises \<open>ValueError\<close> (the zero step
  of \<open>range\<close>) when it is first advanced, before any chunk; for \<open>size < 0\<close> it yields no
  chunk and raises nothing.
\<close>

theorem chunk_nonpositive_size:
  assumes "sz \<le> 0"
  shows "chunk data sz = ([], if sz = 0 then Some ValueError else None)"
proof -
  have "0 \<le> len data" by (cases data) simp_all
  then show ?thesis using assms by (simp add: chunk_def py_range_def range_len_def)
qed

theorem chunk_nonpositive_size_witness:
  "(0::int) \<le> 0 \<and> chunk (PyList [1, 2, 3 :: int] :: (int, unit, unit) data) 0 = ([], Some ValueError)"
  using chunk_nonpositive_size [of 0 "PyList [1, 2, 3 :: int] :: (int, unit, unit) data"] by simp

section \<open>Properties of \<open>sqlite_writer\<close>\<close>

lemma driver_call_fields [simp]:
  "fst (driver_call env ev w) = env (clock w)"
  "snd (driver_call env ev w) = w\<lparr>clock := Suc (clock w), trace := trace w @ [ev]\<rparr>"
  by (simp_all add: driver_call_def)

lemma execute_insert_post:
  assumes "execute_insert env b w = (r, w1)"
  shows "res w1 = res w \<and> file_exists w1 = file_exists w \<and> has_table w1 = has_table w
       \<and> rows w1 = rows w \<and> clock w1 = Suc (clock w) \<and> trace w1 = trace w @ [EvInsert b]
       \<and> (case r of
             Inl e \<Rightarrow> pending w1 = pending w
                 \<and> (if env (clock w) = Proceed then \<not> has_table w \<and> e = OperationalError NoSuchTable
                    else env (clock w) = Fail e)
           | Inr u \<Rightarrow> pending w1 = pending w @ [b] \<and> has_table w \<and> env (clock w) = Proceed)"
  using assms
  by (cases "env (clock w)") (auto simp: execute_insert_def driver_call_def split: if_splits)

lemma commit_post:
  assumes "commit env w = (r, w1)"
  shows "res w1 = res w \<and> file_exists w1 = file_exists w \<and> has_table w1 = has_table w
       \<and> clock w1 = Suc (clock w) \<and> trace w1 = trace w @ [EvCommit]
       \<and> (case r of
             Inl e \<Rightarrow> pending w1 = pending w \<and> rows w1 = rows w \<and> env (clock w) = Fail e
           | Inr u \<Rightarrow> pending w1 = [] \<and> rows w1 = rows w @ pending w \<and> env (clock w) = Proceed)"
  using assms
  by (cases "env (clock w)") (auto simp: commit_def driver_call_def)

lemma attempt_frame:
  assumes "attempt dumps env w = (r, w')"
  shows "res w' = res w \<and> file_exists w' = file_exists w \<and> has_table w' = has_table w
       \<and> clock w \<le> clock w'"
proof (cases "dumps (res w)")
  case None
  then show ?thesis using assms by (auto simp: attempt_def)
next
  case (Some b)
  obtain r1 w1 where i: "execute_insert env b (w\<lparr>trace := trace w @ [EvSerialize]\<rparr>) = (r1, w1)"
    by (cases "execute_insert env b (w\<lparr>trace := trace w @ [EvSerialize]\<rparr>)")
  note ip = execute_insert_post [OF i]
  show ?thesis
  proof (cases r1)
    case (Inl e)
    then show ?thesis using assms Some i ip by (auto simp: attempt_def)
  next
    case (Inr u)
    then have c: "commit env w1 = (r, w')" using assms Some i by (simp add: attempt_def)
    show ?thesis using ip commit_post [OF c] by simp
  qed
qed

lemma attempt_break:
  assumes "attempt dumps env w = (Inr u, w')"
  shows "\<exists>b. dumps (res w) = Some b
       \<and> trace w' = trace w @ [EvSerialize, EvInsert b, EvCommit]
       \<and> has_table w \<and> rows w' = rows w @ pending w @ [b] \<and> pending w' = []
       \<and> clock w' = clock w + 2 \<and> env (clock w) = Proceed \<and> env (Suc (clock w)) = Proceed"
proof (cases "dumps (res w)")
  case None
  then show ?thesis using assms by (auto simp: attempt_def)
next
  case (Some b)
  obtain r1 w1 where i: "execute_insert env b (w\<lparr>trace := trace w @ [EvSerialize]\<rparr>) = (r1, w1)"
    by (cases "execute_insert env b (w\<lparr>trace := trace w @ [EvSerialize]\<rparr>)")
  note ip = execute_insert_post [OF i]
  show ?thesis
  proof (cases r1)
    case (Inl e)
    then show ?thesis using assms Some i by (auto simp: attempt_def)
  next
    case (Inr u1)
    then have c: "commit env w1 = (Inr u, w')" using assms Some i by (simp add: attempt_def)
    show ?thesis using Some Inr ip commit_post [OF c] by simp
  qed
qed

lemma attempt_raise:
  assumes "attempt dumps env w = (Inl e, w')"
  shows "rows w' = rows w \<and>
    (case dumps (res w) of
       None \<Rightarrow> e = TypeError \<and> w' = w\<lparr>trace := trace w @ [EvSerialize]\<rparr>
     | Some b \<Rightarrow>
         (trace w' = trace w @ [EvSerialize, EvInsert b] \<and> pending w' = pending w
            \<and> clock w' = Suc (clock w)
            \<and> (if env (clock w) = Proceed then \<not> has_table w \<and> e = OperationalError NoSuchTable
                else env (clock w) = Fail e))
         \<or> (trace w' = trace w @ [EvSerialize, EvInsert b, EvCommit] \<and> pending w' = pending w @ [b]
            \<and> clock w' = clock w + 2 \<and> has_table w
            \<and> env (clock w) = Proceed \<and> env (Suc (clock w)) = Fail e))"
proof (cases "dumps (res w)")
  case None
  then show ?thesis using assms by (auto simp: attempt_def)
next
  case (Some b)
  obtain r1 w1 where i: "execute_insert env b (w\<lparr>trace := trace w @ [EvSerialize]\<rparr>) = (r1, w1)"
    by (cases "execute_insert env b (w\<lparr>trace := trace w @ [EvSerialize]\<rparr>)")
  note ip = execute_insert_post [OF i]
  show ?thesis
  proof (cases r1)
    case (Inl e1)
    then have "e1 = e" "w1 = w'" using assms Some i by (auto simp: attempt_def)
    then show ?thesis using Some Inl ip by (auto split: if_splits)
  next
    case (Inr u1)
    then have c: "commit env w1 = (Inl e, w')" using assms Some i by (simp add: attempt_def)
    show ?thesis using Some Inr ip commit_post [OF c] by simp
  qed
qed

lemma retry_units_cons_insert:
  "retry_units b t \<Longrightarrow> retry_units b (EvSerialize # EvInsert b # t)"
  by (cases t) auto

lemma retry_units_cons_commit:
  "retry_units b t \<Longrightarrow> retry_units b (EvSerialize # EvInsert b # EvCommit # t)"
  by simp

lemma writer_loop_induct [consumes 1, case_names stop retry]:
  assumes major: "writer_loop dumps env w = Some y"
    and stop: "\<And>w r w'. attempt dumps env w = (r, w') \<Longrightarrow> (\<And>e. r = Inl e \<Longrightarrow> \<not> is_operational e)
                 \<Longrightarrow> P w (r, w')"
    and retry: "\<And>w e w1 y. attempt dumps env w = (Inl e, w1) \<Longrightarrow> is_operational e
                 \<Longrightarrow> writer_loop dumps env w1 = Some y \<Longrightarrow> P w1 y \<Longrightarrow> P w y"
  shows "P w y"
proof -
  have "dumps' = dumps \<and> env' = env \<longrightarrow> writer_loop dumps env w = Some y \<and> P w y"
    if "writer_loop dumps' env' w = Some y" for dumps' env' w y
    using that
  proof (rule writer_loop.raw_induct
      [where P = "\<lambda>d e w y. d = dumps \<and> e = env \<longrightarrow> writer_loop dumps env w = Some y \<and> P w y", rotated])
    fix loop d e w y
    assume ih: "\<And>d e w y. loop d e w = Some y
        \<Longrightarrow> d = dumps \<and> e = env \<longrightarrow> writer_loop dumps env w = Some y \<and> P w y"
      and body: "(case attempt d e w of
                    (Inl x, w') \<Rightarrow> if is_operational x then loop d e w' else Some (Inl x, w')
                  | (Inr u, w') \<Rightarrow> Some (Inr (), w')) = Some y"
    show "d = dumps \<and> e = env \<longrightarrow> writer_loop dumps env w = Some y \<and> P w y"
    proof (intro impI)
      assume eq: "d = dumps \<and> e = env"
      obtain r w1 where a: "attempt dumps env w = (r, w1)" by (cases "attempt dumps env w")
      show "writer_loop dumps env w = Some y \<and> P w y"
      proof (cases r)
        case (Inl x)
        show ?thesis
        proof (cases "is_operational x")
          case True
          then have "loop dumps env w1 = Some y" using body eq a Inl by simp
          then have l: "writer_loop dumps env w1 = Some y" and p: "P w1 y"
            using ih [of dumps env w1 y] by simp_all
          have "writer_loop dumps env w = Some y"
            using l a Inl True by (subst writer_loop.simps) simp
          moreover have "P w y" using retry [OF a [unfolded Inl] True l p] .
          ultimately show ?thesis ..
        next
          case False
          then have y: "y = (r, w1)" using body eq a Inl by simp
          have "writer_loop dumps env w = Some y"
            using y a Inl False by (subst writer_loop.simps) simp
          moreover have "P w (r, w1)" using a
          proof (rule stop)
            fix e' assume "r = Inl e'"
            then show "\<not> is_operational e'" using Inl False by simp
          qed
          ultimately show ?thesis using y by simp
        qed
      next
        case (Inr u)
        then have y: "y = (r, w1)" using body eq a by simp
        have "writer_loop dumps env w = Some y"
          using y a Inr by (subst writer_loop.simps) simp
        moreover have "P w (r, w1)" using a
        proof (rule stop)
          fix e' assume "r = Inl e'"
          then show "\<not> is_operational e'" using Inr by simp
        qed
        ultimately show ?thesis using y by simp
      qed
    qed
  qed
  then show ?thesis using major by blast
qed

lemma writer_loop_frame:
  assumes "writer_loop dumps env w = Some y"
  shows "res (snd y) = res w \<and> file_exists (snd y) = file_exists w \<and> has_table (snd y) = has_table w
     \<and> clock w \<le> clock (snd y)"
  using assms
proof (induction rule: writer_loop_induct)
  case (stop w r w')
  then show ?case using attempt_frame [of dumps env w r w'] by simp
next
  case (retry w e w1 y)
  then show ?case using attempt_frame [of dumps env w "Inl e" w1] by simp
qed


lemma writer_loop_success:
  assumes "writer_loop dumps env w = Some y" and "fst y = Inr u"
  shows "\<exists>b t n. dumps (res w) = Some b \<and> retry_units b t
           \<and> trace (snd y) = trace w @ t @ [EvSerialize, EvInsert b, EvCommit]
           \<and> rows (snd y) = rows w @ pending w @ replicate (Suc n) b
           \<and> pending (snd y) = [] \<and> has_table (snd y)
           \<and> clock w + 2 \<le> clock (snd y)
           \<and> env (clock (snd y) - 2) = Proceed \<and> env (clock (snd y) - 1) = Proceed"
  using assms
proof (induction rule: writer_loop_induct)
  case (stop w r w1)
  then have a: "attempt dumps env w = (Inr u, w1)" by simp
  obtain b where b: "dumps (res w) = Some b"
       "trace w1 = trace w @ [EvSerialize, EvInsert b, EvCommit]"
       "has_table w" "rows w1 = rows w @ pending w @ [b]" "pending w1 = []"
       "clock w1 = clock w + 2" "env (clock w) = Proceed" "env (Suc (clock w)) = Proceed"
    using attempt_break [OF a] by blast
  have "retry_units b []" by simp
  moreover have "trace (snd (r, w1)) = trace w @ [] @ [EvSerialize, EvInsert b, EvCommit]"
    using b(2) by simp
  moreover have "rows (snd (r, w1)) = rows w @ pending w @ replicate (Suc 0) b"
    using b(4) by simp
  moreover have "has_table (snd (r, w1))" using b(3) attempt_frame [OF a] by simp
  moreover have "env (clock (snd (r, w1)) - 2) = Proceed" "env (clock (snd (r, w1)) - 1) = Proceed"
    using b(6,7,8) by simp_all
  moreover have "pending (snd (r, w1)) = []" "clock w + 2 \<le> clock (snd (r, w1))"
    using b(5,6) by simp_all
  ultimately show ?case using b(1) by blast
next
  case (retry w e w1 y)
  note f = attempt_frame [OF retry(1)]
  note ar = attempt_raise [OF retry(1)]
  obtain b t n where ih:
    "dumps (res w1) = Some b" "retry_units b t"
    "trace (snd y) = trace w1 @ t @ [EvSerialize, EvInsert b, EvCommit]"
    "rows (snd y) = rows w1 @ pending w1 @ replicate (Suc n) b"
    "pending (snd y) = []" "has_table (snd y)" "clock w1 + 2 \<le> clock (snd y)"
    "env (clock (snd y) - 2) = Proceed" "env (clock (snd y) - 1) = Proceed"
    using retry(4) [OF retry(5)] by blast
  have d: "dumps (res w) = Some b" using ih(1) f by simp
  from ar d consider
      (ins) "trace w1 = trace w @ [EvSerialize, EvInsert b]" "pending w1 = pending w"
    | (com) "trace w1 = trace w @ [EvSerialize, EvInsert b, EvCommit]" "pending w1 = pending w @ [b]"
    by auto
  then show ?case
  proof cases
    case ins
    have "retry_units b (EvSerialize # EvInsert b # t)"
      using ih(2) by (rule retry_units_cons_insert)
    moreover have "trace (snd y) = trace w @ (EvSerialize # EvInsert b # t) @ [EvSerialize, EvInsert b, EvCommit]"
      using ih(3) ins(1) by simp
    moreover have "rows (snd y) = rows w @ pending w @ replicate (Suc n) b"
      using ih(4) ins(2) ar by simp
    moreover have "clock w + 2 \<le> clock (snd y)" using ih(7) f by simp
    ultimately show ?thesis using d ih(5,6,8,9) by blast
  next
    case com
    have "retry_units b (EvSerialize # EvInsert b # EvCommit # t)"
      using ih(2) by (rule retry_units_cons_commit)
    moreover have "trace (snd y) = trace w @ (EvSerialize # EvInsert b # EvCommit # t) @ [EvSerialize, EvInsert b, EvCommit]"
      using ih(3) com(1) by simp
    moreover have "rows (snd y) = rows w @ pending w @ replicate (Suc (Suc n)) b"
      using ih(4) com(2) ar by (simp add: replicate_app_Cons_same)
    moreover have "clock w + 2 \<le> clock (snd y)" using ih(7) f by simp
    ultimately show ?thesis using d ih(5,6,8,9) by blast
  qed
qed




lemma connect_post:
  assumes "connect env w = (r, w1)"
  shows "res w1 = res w \<and> rows w1 = rows w \<and> has_table w1 = has_table w
       \<and> clock w1 = Suc (clock w) \<and> trace w1 = trace w @ [EvConnect]
       \<and> (case r of
             Inl e \<Rightarrow> env (clock w) = Fail e \<and> file_exists w1 = file_exists w \<and> pending w1 = pending w
           | Inr u \<Rightarrow> env (clock w) = Proceed \<and> file_exists w1 \<and> pending w1 = [])"
  using assms
  by (cases "env (clock w)") (auto simp: connect_def driver_call_def)

lemma execute_create_table_post:
  assumes "execute_create_table env w = (r, w1)"
  shows "res w1 = res w \<and> rows w1 = rows w \<and> pending w1 = pending w \<and> (has_table w \<longrightarrow> has_table w1)
       \<and> clock w1 = Suc (clock w) \<and> trace w1 = trace w @ [EvCreateTable]
       \<and> (case r of
             Inl e \<Rightarrow> env (clock w) = Fail e
           | Inr u \<Rightarrow> env (clock w) = Proceed \<and> has_table w1)"
  using assms
  by (cases "env (clock w)")
     (auto simp: execute_create_table_def driver_call_def create_table_if_not_exists_def)

lemma close_fields [simp]:
  "res (close w) = res w" "rows (close w) = rows w" "has_table (close w) = has_table w"
  "file_exists (close w) = file_exists w" "clock (close w) = clock w"
  "trace (close w) = trace w @ [EvClose]" "pending (close w) = []"
  by (simp_all add: close_def)

lemma suppress_cases:
  "suppress (r, w) = (r', w') \<Longrightarrow>
     w' = w \<and> (case r of Inl e \<Rightarrow> (if is_operational e then r' = Inr () else r' = Inl e)
                       | Inr u \<Rightarrow> r' = Inr ())"
  by (auto simp: suppress_def split: sum.splits if_splits)


lemma ensure_schema_post:
  assumes "ensure_schema env w = (r, w1)"
  shows "res w1 = res w \<and> rows w1 = rows w \<and> clock w \<le> clock w1 \<and> (has_table w \<longrightarrow> has_table w1)
       \<and> (\<forall>e. r = Inl e \<longrightarrow> \<not> is_operational e \<and> 0 < clock w1 \<and> env (clock w1 - 1) = Fail e)
       \<and> (\<not> file_exists w \<longrightarrow> (\<exists>t. trace w1 = trace w @ EvConnect # t))"
proof (cases "file_exists w")
  case True
  then show ?thesis using assms by (auto simp: ensure_schema_def)
next
  case False
  obtain r1 v1 where c: "connect env w = (r1, v1)" by (cases "connect env w")
  note cp = connect_post [OF c]
  show ?thesis
  proof (cases r1)
    case (Inl e)
    then have "suppress (Inl e, v1) = (r, w1)" using assms False c by (simp add: ensure_schema_def)
    from suppress_cases [OF this] show ?thesis using cp Inl False
      by (auto split: if_splits)
  next
    case (Inr u)
    obtain r2 v2 where x: "execute_create_table env v1 = (r2, v2)"
      by (cases "execute_create_table env v1")
    note xp = execute_create_table_post [OF x]
    show ?thesis
    proof (cases r2)
      case (Inl e)
      then have "suppress (Inl e, close v2) = (r, w1)"
        using assms False c Inr x by (simp add: ensure_schema_def)
      from suppress_cases [OF this] show ?thesis using cp xp Inl Inr False
        by (auto split: if_splits)
    next
      case Inr2: (Inr u2)
      obtain r3 v3 where m: "commit env v2 = (r3, v3)" by (cases "commit env v2")
      note mp = commit_post [OF m]
      have "suppress (r3, close v3) = (r, w1)"
        using assms False c Inr x Inr2 m by (simp add: ensure_schema_def)
      from suppress_cases [OF this] show ?thesis using cp xp mp Inr Inr2 False
        by (cases r3) (auto split: if_splits)
    qed
  qed
qed


lemma sqlite_writer_cases:
  assumes "sqlite_writer dumps env w = Some (r, w')"
  obtains (schema) e where "ensure_schema env w = (Inl e, w')" "r = Inl e"
  | (connect) w1 e where "ensure_schema env w = (Inr (), w1)" "connect env w1 = (Inl e, w')" "r = Inl e"
  | (loop) w1 w2 w3 where "ensure_schema env w = (Inr (), w1)" "connect env w1 = (Inr (), w2)"
      "writer_loop dumps env w2 = Some (r, w3)" "w' = close w3"
proof -
  obtain r1 w1 where s: "ensure_schema env w = (r1, w1)" by (cases "ensure_schema env w")
  show ?thesis
  proof (cases r1)
    case (Inl e)
    then have "ensure_schema env w = (Inl e, w')" "r = Inl e"
      using assms s by (auto simp: sqlite_writer_def)
    then show ?thesis by (rule schema)
  next
    case (Inr u)
    obtain r2 w2 where c: "connect env w1 = (r2, w2)" by (cases "connect env w1")
    show ?thesis
    proof (cases r2)
      case (Inl e)
      then have "ensure_schema env w = (Inr (), w1)" "connect env w1 = (Inl e, w')" "r = Inl e"
        using assms s Inr c by (auto simp: sqlite_writer_def)
      then show ?thesis by (rule connect)
    next
      case Inr2: (Inr u2)
      then obtain w3 where "writer_loop dumps env w2 = Some (r, w3)" "w' = close w3"
        using assms s Inr c by (auto simp: sqlite_writer_def split: option.splits)
      moreover have "ensure_schema env w = (Inr (), w1)" "connect env w1 = (Inr (), w2)"
        using s Inr c Inr2 by simp_all
      ultimately show ?thesis using loop by blast
    qed
  qed
qed








text \<open>
  Claim C8. The codec is outside the repository; it is taken as a pair \<open>dumps\<close>,
  \<open>loads\<close> that round-trips (\<open>round_trips\<close>), as the specification requires of it.
  Then after every call
  of \<open>sqlite_writer\<close> that returns normally the rows added to the store are all the
  serialized record, there is at least one of them, and each decodes to the record the
  caller passed; the rows that were there before are untouched.
\<close>

theorem sqlite_writer_stores_payload:
  assumes codec: "round_trips dumps loads"
    and ok: "sqlite_writer dumps env w = Some (Inr (), w')"
  shows "\<exists>b n. dumps (res w) = Some b \<and> rows w' = rows w @ replicate (Suc n) b
           \<and> loads b = Some (res w)
           \<and> (\<exists>p \<in> set (rows w'). loads p = Some (res w))"
  using ok
proof (cases rule: sqlite_writer_cases)
  case (loop w1 w2 w3)
  note sp = ensure_schema_post [OF loop(1)] and cp = connect_post [OF loop(2)]
  obtain b n where l: "dumps (res w2) = Some b"
      "rows w3 = rows w2 @ pending w2 @ replicate (Suc n) b"
    using writer_loop_success [OF loop(3), of "()"] by auto
  have d: "dumps (res w) = Some b" using l(1) sp cp by simp
  have r: "rows w' = rows w @ replicate (Suc n) b" using l(2) loop(4) sp cp by simp
  have "loads b = Some (res w)" using codec d by (simp add: round_trips_def)
  moreover have "b \<in> set (rows w')" using r by simp
  ultimately show ?thesis using d r by blast
qed simp_all

lemma demo_codec_round_trips:
  "round_trips demo_dumps demo_loads"
  by (auto simp: round_trips_def demo_dumps_def split: if_splits)

theorem sqlite_writer_stores_payload_witness:
  "round_trips demo_dumps demo_loads
   \<and> (\<exists>w'. sqlite_writer demo_dumps (script [Proceed, Proceed, Proceed, Proceed, Proceed,
              Fail (OperationalError DatabaseLocked)]) (new_world False False [] [7, 8]) = Some (Inr (), w')
          \<and> (\<exists>p \<in> set (rows w'). demo_loads p = Some [7, 8]))"
proof -
  let ?env = "script [Proceed, Proceed, Proceed, Proceed, Proceed, Fail (OperationalError DatabaseLocked)]"
  let ?w = "new_world False False [] [7, 8] :: (nat list, nat list) world"
  define w' :: "(nat list, nat list) world" where
    "w' = \<lparr>file_exists = True, has_table = True, rows = [[2, 7, 8], [2, 7, 8]], pending = [], clock = 8,
       trace = [EvConnect, EvCreateTable, EvCommit, EvClose, EvConnect,
                EvSerialize, EvInsert [2, 7, 8], EvCommit, EvSerialize, EvInsert [2, 7, 8], EvCommit, EvClose],
       res = [7, 8]\<rparr>"
  have run: "sqlite_writer demo_dumps ?env ?w = Some (Inr (), w')"
    unfolding w'_def by code_simp
  have "\<exists>p \<in> set (rows w'). demo_loads p = Some (res ?w)"
    using sqlite_writer_stores_payload [of demo_dumps demo_loads ?env ?w w', OF demo_codec_round_trips run]
    by blast
  then show ?thesis using run demo_codec_round_trips by (auto simp: new_world_def)
qed

text \<open>
  Claim C9. Whatever a call of \<open>sqlite_writer\<close> returns, after any number of
  iterations of the loop, the record object the caller passed is the one it was before
  the call: the code only reads it, to serialize it.
\<close>

theorem sqlite_writer_keeps_record:
  assumes "sqlite_writer dumps env w = Some (r, w')"
  shows "res w' = res w"
  using assms
proof (cases rule: sqlite_writer_cases)
  case (schema e)
  then show ?thesis using ensure_schema_post [OF schema(1)] by simp
next
  case (connect w1 e)
  then show ?thesis using ensure_schema_post [OF connect(1)] connect_post [OF connect(2)] by simp
next
  case (loop w1 w2 w3)
  then show ?thesis
    using ensure_schema_post [OF loop(1)] connect_post [OF loop(2)] writer_loop_frame [OF loop(3)]
    by simp
qed

theorem sqlite_writer_keeps_record_witness:
  "\<exists>w'. sqlite_writer demo_dumps
          (script [Proceed, Fail (OperationalError DatabaseLocked), Proceed,
                   Fail (OperationalError DatabaseLocked), Proceed, Proceed])
          (new_world True True [] [7, 8]) = Some (Inr (), w')
        \<and> res w' = [7, 8]"
proof -
  let ?env = "script [Proceed, Fail (OperationalError DatabaseLocked), Proceed,
                 Fail (OperationalError DatabaseLocked), Proceed, Proceed]"
  let ?w = "new_world True True [] [7, 8] :: (nat list, nat list) world"
  define w' :: "(nat list, nat list) world" where
    "w' = \<lparr>file_exists = True, has_table = True, rows = [[2, 7, 8], [2, 7, 8]], pending = [],
       clock = 6,
       trace = [EvConnect, EvSerialize, EvInsert [2, 7, 8], EvSerialize, EvInsert [2, 7, 8], EvCommit,
                EvSerialize, EvInsert [2, 7, 8], EvCommit, EvClose],
       res = [7, 8]\<rparr>"
  have run: "sqlite_writer demo_dumps ?env ?w = Some (Inr (), w')"
    unfolding w'_def by code_simp
  have "res w' = res ?w" using sqlite_writer_keeps_record [OF run] .
  then show ?thesis using run by (simp add: new_world_def)
qed

section \<open>Properties of \<open>gen_results_tables\<close>\<close>

lemma pop_None_keys:
  "fst ` set (pop_None c) = fst ` set c - {None}"
  by (auto simp: pop_None_def image_iff)

lemma pop_None_lookup:
  "k \<noteq> None \<Longrightarrow> map_of (pop_None c) k = map_of c k"
  by (induction c) (auto simp: pop_None_def)

lemma pop_None_empty:
  "pop_None [] = []"
  by (simp add: pop_None_def)

lemma aad_part_counter:
  "snd (aad_part c) = pop_None c"
  by (simp add: aad_part_def pop_None_empty Let_def)

lemma arm_part_counter:
  "snd (arm_part c) = pop_None c"
  by (simp add: arm_part_def pop_None_empty Let_def split: prod.splits sum.splits option.splits)

text \<open>
  Claim C10. \<open>gen_results_tables\<close> changes the counters of its caller: after the call
  each counter is the one passed without the entry whose key is \<open>None\<close> (an empty
  counter stays empty), so \<open>None\<close> is no longer a key, every other key is still there,
  with its count and in its place.
\<close>

theorem gen_results_tables_pops_None:
  assumes "gen_results_tables aad_results arm_results = (r, aad', arm')"
  shows "aad' = filter (\<lambda>(k, v). k \<noteq> None) aad_results
       \<and> arm' = filter (\<lambda>(k, v). k \<noteq> None) arm_results
       \<and> fst ` set aad' = fst ` set aad_results - {None}
       \<and> fst ` set arm' = fst ` set arm_results - {None}
       \<and> (\<forall>k. k \<noteq> None \<longrightarrow> map_of aad' k = map_of aad_results k
                           \<and> map_of arm' k = map_of arm_results k)"
proof -
  have "aad' = snd (aad_part aad_results)" "arm' = snd (arm_part arm_results)"
    using assms by (auto simp: gen_results_tables_def split: prod.splits sum.splits)
  then have a: "aad' = pop_None aad_results" "arm' = pop_None arm_results"
    by (simp_all add: aad_part_counter arm_part_counter)
  have f: "pop_None c = filter (\<lambda>(k, v). k \<noteq> None) c" for c
    by (simp only: pop_None_def)
  have "aad' = filter (\<lambda>(k, v). k \<noteq> None) aad_results"
    "arm' = filter (\<lambda>(k, v). k \<noteq> None) arm_results"
    unfolding a by (rule f)+
  moreover have "fst ` set aad' = fst ` set aad_results - {None}"
    "fst ` set arm' = fst ` set arm_results - {None}"
    unfolding a by (rule pop_None_keys)+
  moreover have "map_of aad' k = map_of aad_results k \<and> map_of arm' k = map_of arm_results k"
    if "k \<noteq> None" for k
    unfolding a using that pop_None_lookup [of k] by blast
  ultimately show ?thesis by blast
qed

theorem gen_results_tables_pops_None_witness:
  "\<exists>r aad' arm'.
     gen_results_tables [(Some ''users'', 12), (None, 3), (Some ''apps'', 4)]
        [(Some ''vm'', 2), (None, 1), (Some ''disk'', 105), (Some ''net'', 7)] = (r, aad', arm')
     \<and> aad' = [(Some ''users'', 12), (Some ''apps'', 4)]
     \<and> arm' = [(Some ''vm'', 2), (Some ''disk'', 105), (Some ''net'', 7)]
     \<and> map_of aad' (Some ''apps'') = Some 4"
proof -
  let ?aad = "[(Some ''users'', 12), (None, 3), (Some ''apps'', 4)] :: counter"
  let ?arm = "[(Some ''vm'', 2), (None, 1), (Some ''disk'', 105), (Some ''net'', 7)] :: counter"
  obtain r aad' arm' where g: "gen_results_tables ?aad ?arm = (r, aad', arm')"
    by (cases "gen_results_tables ?aad ?arm") auto
  note t = gen_results_tables_pops_None [OF g]
  have "aad' = [(Some ''users'', 12), (Some ''apps'', 4)]" using t by simp
  moreover have "arm' = [(Some ''vm'', 2), (Some ''disk'', 105), (Some ''net'', 7)]" using t by simp
  moreover have "map_of aad' (Some ''apps'') = Some 4"
    using t by simp
  ultimately show ?thesis using g by blast
qed

lemma gen_results_tables_example:
  "gen_results_tables [(Some ''users'', 12), (None, 3), (Some ''apps'', 4)]
        [(Some ''vm'', 2), (None, 1), (Some ''disk'', 105), (Some ''net'', 7)]
   = (Inr [PanelFit (Table [(''apps'', ''4''), (''users'', ''12'')])
             ''[bold yellow]AAD Results (Total: 16)[/]'',
           Panel [Table [(''disk'', ''105''), (''net'', ''7'')], Table [(''vm'', ''2'')]]
             ''[bold yellow]ARM Results (Total: 114)[/]''],
      [(Some ''users'', 12), (Some ''apps'', 4)],
      [(Some ''vm'', 2), (Some ''disk'', 105), (Some ''net'', 7)])"
  by code_simp

lemma arm_tables_lists:
  "arm_tables (map (PyList \<circ> f) is) = Inr (map (add_rows \<circ> f) is)"
  by (induction "is") simp_all

lemma arm_part_returns:
  "\<exists>ps. fst (arm_part c) = Inr ps"
proof (cases "c = []")
  case True
  then show ?thesis by (simp add: arm_part_def)
next
  case False
  have "0 < int (length (pop_None c)) div 3 + 1"
    by (simp add: pos_imp_zdiv_nonneg_iff add_pos_nonneg)
  then have "chunk (PyList (sorted_items (pop_None c)) :: (string \<times> int, unit, unit) data)
        (int (length (pop_None c)) div 3 + 1)
      = (map PyList (map (\<lambda>i. take (nat (int (length (pop_None c)) div 3 + 1))
                              (drop (i * nat (int (length (pop_None c)) div 3 + 1))
                                 (sorted_items (pop_None c))))
           [0 ..< (length (sorted_items (pop_None c)) + nat (int (length (pop_None c)) div 3 + 1) - 1)
                    div nat (int (length (pop_None c)) div 3 + 1)]), None)"
    by (simp add: chunk_list_eq comp_def)
  then show ?thesis using False by (simp add: arm_part_def arm_tables_lists Let_def)
qed

lemma gen_results_tables_returns:
  "\<exists>ps. fst (gen_results_tables aad_results arm_results) = Inr ps"
  using arm_part_returns [of arm_results]
  by (auto simp: gen_results_tables_def split: prod.splits sum.splits)

end
